theory Spec2Isabelle
  imports Main "HOL-Library.List_Lexorder" "HOL-Library.Char_ord" "HOL-Library.Multiset"
begin

section \<open>Go standard library functions used by novendor\<close>

text \<open>
  Go strings are byte sequences; they are modelled as \<open>string\<close> (lists of 8-bit
  characters).  \<open>strings.LastIndex s sep\<close> is the index of the last instance of
  \<open>sep\<close> in \<open>s\<close>, or \<open>-1\<close> when there is none.  The search runs from the highest
  start position at which \<open>sep\<close> still fits down to position 0.
\<close>

fun LastIndex_from :: "nat \<Rightarrow> string \<Rightarrow> string \<Rightarrow> int" where
  "LastIndex_from 0 s sep = (if take (length sep) s = sep then 0 else - 1)"
| "LastIndex_from (Suc i) s sep =
     (if take (length sep) (drop (Suc i) s) = sep then int (Suc i)
      else LastIndex_from i s sep)"

definition LastIndex :: "string \<Rightarrow> string \<Rightarrow> int" where
  "LastIndex s sep =
     (if length s < length sep then - 1
      else LastIndex_from (length s - length sep) s sep)"

definition HasPrefix :: "string \<Rightarrow> string \<Rightarrow> bool" where
  "HasPrefix s pre = (length pre \<le> length s \<and> take (length pre) s = pre)"

text \<open>
  A compiled \<open>*regexp.Regexp\<close> is used by the program only through
  \<open>FindStringSubmatch\<close>, so a regular expression is represented by that method: it maps
  the subject string to the list holding the leftmost match followed by its submatches,
  and to the empty list (Go's \<open>nil\<close>) when there is no match.
\<close>

type_synonym regexp = "string \<Rightarrow> string list"

section \<open>Import path normalisation\<close>

text \<open>
  The loop of \<open>transformImportPath\<close> over the regular expressions: the first expression
  whose match is non-empty as a slice replaces the path by \<open>match[0]\<close> and breaks.
\<close>

fun transformLoop :: "regexp list \<Rightarrow> string \<Rightarrow> string" where
  "transformLoop [] importPath = importPath"
| "transformLoop (reg # regexps) importPath =
     (let match = reg importPath in
      if length match > 0 then match ! 0 else transformLoop regexps importPath)"

definition transformImportPath :: "string \<Rightarrow> regexp list \<Rightarrow> string" where
  "transformImportPath importPath regexps =
     (let lastVendorIdx = LastIndex importPath ''/vendor/'' in
      if lastVendorIdx \<noteq> - 1 then
        (let idxAfterLastVendor = lastVendorIdx + int (length ''/vendor/'');
             vendorPrefix = take (nat idxAfterLastVendor) importPath;
             importPath' = drop (nat idxAfterLastVendor) importPath
         in vendorPrefix @ transformLoop regexps importPath')
      else '''' @ transformLoop regexps importPath)"

text \<open>
  The normaliser as the specification words it: the start positions at which the
  segment occurs, the split at the last of them, and the first pattern that matches.
\<close>

definition occurrences :: "string \<Rightarrow> string \<Rightarrow> nat list" where
  "occurrences sep s =
     filter (\<lambda>i. take (length sep) (drop i s) = sep) [0..<Suc (length s)]"

definition normalize_spec :: "string \<Rightarrow> regexp list \<Rightarrow> string" where
  "normalize_spec path patterns =
     (let occ = occurrences ''/vendor/'' path;
          cut = (if occ = [] then 0 else last occ + length ''/vendor/'');
          prefix = take cut path;
          remainder = drop cut path;
          remainder' = (case find (\<lambda>reg. reg remainder \<noteq> []) patterns of
                          None \<Rightarrow> remainder
                        | Some reg \<Rightarrow> hd (reg remainder))
      in prefix @ remainder')"

text \<open>A sample grouping pattern, \<open>^gopkg.in/[^/]+\<close>, as its match function.\<close>

definition re_gopkg :: regexp where
  "re_gopkg s =
     (if HasPrefix s ''gopkg.in/'' \<and> takeWhile (\<lambda>c. c \<noteq> CHR ''/'') (drop 9 s) \<noteq> []
      then [''gopkg.in/'' @ takeWhile (\<lambda>c. c \<noteq> CHR ''/'') (drop 9 s)] else [])"

section \<open>Slash-separated paths\<close>

text \<open>
  The program runs on a Unix file system.  \<open>path.Clean\<close>, \<open>path.Join\<close>,
  \<open>path.Base\<close>, \<open>filepath.IsAbs\<close> and \<open>filepath.Rel\<close> belong to the Go standard
  library; they are modelled after their documentation, on the list of elements between
  slashes.
\<close>

fun split_slash :: "string \<Rightarrow> string list" where
  "split_slash [] = [[]]"
| "split_slash (c # cs) =
     (if c = CHR ''/'' then [] # split_slash cs
      else (case split_slash cs of [] \<Rightarrow> [[c]] | e # es \<Rightarrow> (c # e) # es))"

fun join_slash :: "string list \<Rightarrow> string" where
  "join_slash [] = []"
| "join_slash [e] = e"
| "join_slash (e # e' # es) = e @ ''/'' @ join_slash (e' # es)"

text \<open>
  \<open>clean_elems rooted acc es\<close> applies the rules of \<open>Clean\<close> to the elements \<open>es\<close>;
  \<open>acc\<close> holds the elements kept so far, the last one first.  Empty and \<open>.\<close>
  elements are dropped, \<open>..\<close> removes the element before it, and a \<open>..\<close> that would
  climb above the root of a rooted path is dropped.
\<close>

fun clean_elems :: "bool \<Rightarrow> string list \<Rightarrow> string list \<Rightarrow> string list" where
  "clean_elems rooted acc [] = rev acc"
| "clean_elems rooted acc (e # es) =
     (if e = '''' \<or> e = ''.'' then clean_elems rooted acc es
      else if e = ''..'' then
        (case acc of
           [] \<Rightarrow> if rooted then clean_elems rooted [] es else clean_elems rooted [e] es
         | a # as \<Rightarrow> if a = ''..'' then clean_elems rooted (e # acc) es
                     else clean_elems rooted as es)
      else clean_elems rooted (e # acc) es)"

definition IsAbs :: "string \<Rightarrow> bool" where
  "IsAbs p = HasPrefix p ''/''"

definition path_elems :: "string \<Rightarrow> string list" where
  "path_elems p = clean_elems (IsAbs p) [] (split_slash p)"

definition path_Clean :: "string \<Rightarrow> string" where
  "path_Clean p =
     (let out = (if IsAbs p then ''/'' else '''') @ join_slash (path_elems p)
      in if out = '''' then ''.'' else out)"

definition path_Join :: "string list \<Rightarrow> string" where
  "path_Join elems =
     (let es = filter (\<lambda>e. e \<noteq> '''') elems
      in if es = [] then '''' else path_Clean (join_slash es))"

text \<open>
  \<open>path.Base\<close>: the last element of the path, after removing trailing slashes; \<open>.\<close>
  for the empty path and \<open>/\<close> for a path of slashes only.
\<close>

definition path_Base :: "string \<Rightarrow> string" where
  "path_Base p =
     (if p = '''' then ''.''
      else (let p1 = rev (dropWhile (\<lambda>c. c = CHR ''/'') (rev p));
                i = LastIndex p1 ''/'';
                p2 = (if i \<ge> 0 then drop (nat (i + 1)) p1 else p1)
            in if p2 = '''' then ''/'' else p2))"

datatype error =
    GetwdFailed
  | NotNamedVendor string
  | StatFailed string
  | NotADirectory string
  | RelFailed

fun strip_common :: "string list \<Rightarrow> string list \<Rightarrow> string list \<times> string list" where
  "strip_common (b # bs) (t # ts) =
     (if b = t then strip_common bs ts else (b # bs, t # ts))"
| "strip_common bs ts = (bs, ts)"

text \<open>
  \<open>filepath.Rel base targ\<close>: both paths are cleaned; equal paths give \<open>.\<close>; a rooted
  and an unrooted path cannot be related; otherwise the common leading elements are
  removed, every element left of the base becomes \<open>..\<close>, and the elements left of the
  target follow.  The program calls it with an absolute base only.
\<close>

definition filepath_Rel :: "string \<Rightarrow> string \<Rightarrow> error + string" where
  "filepath_Rel basepath targpath =
     (if path_Clean targpath = path_Clean basepath then Inr ''.''
      else if IsAbs basepath \<noteq> IsAbs targpath then Inl RelFailed
      else (case strip_common (path_elems basepath) (path_elems targpath) of
              (bs, ts) \<Rightarrow>
                if bs \<noteq> [] \<and> hd bs = ''..'' then Inl RelFailed
                else Inr (join_slash (replicate (length bs) ''..'' @ ts))))"

section \<open>The file system\<close>

text \<open>
  A file tree: a node is a regular file or a directory with named entries.  Symbolic
  links are not modelled, so \<open>os.Stat\<close> and \<open>os.Lstat\<close> coincide.
\<close>

datatype fsnode = FsFile | FsDir "(string \<times> fsnode) list"

fun IsDir :: "fsnode \<Rightarrow> bool" where
  "IsDir FsFile = False"
| "IsDir (FsDir entries) = True"

fun fs_lookup :: "fsnode \<Rightarrow> string list \<Rightarrow> fsnode option" where
  "fs_lookup node [] = Some node"
| "fs_lookup FsFile (e # es) = None"
| "fs_lookup (FsDir entries) (e # es) =
     (case map_of entries e of None \<Rightarrow> None | Some child \<Rightarrow> fs_lookup child es)"

text \<open>
  \<open>filepath.Walk\<close> calls its function on the root and then, for a directory, on every
  entry in lexical order of the names, descending into each directory entry.  The
  visits are listed in order, each with the path and whether it is a directory.
\<close>

fun walk :: "string \<Rightarrow> fsnode \<Rightarrow> (string \<times> bool) list" where
  "walk path FsFile = [(path, False)]"
| "walk path (FsDir entries) =
     (path, True) #
       concat (map (\<lambda>e. walk (path_Join [path, fst e]) (snd e)) (sort_key fst entries))"

section \<open>Packages and the package metadata resolver\<close>

record package =
  ImportPath :: string
  Dir :: string
  Name :: string
  GoFiles :: "string list"
  TestGoFiles :: "string list"
  XTestGoFiles :: "string list"
  InvalidGoFiles :: "string list"
  Imports :: "string list"
  TestImports :: "string list"
  XTestImports :: "string list"

datatype importErr = NoError | MultiplePackageError | OtherError

text \<open>
  The world a run sees: the file tree, the working directory (\<open>None\<close> when
  \<open>os.Getwd\<close> fails) and \<open>go/build\<close>'s \<open>Context.Import\<close> with \<open>UseAllFiles\<close> set.
  \<open>Import\<close> is a library function; it is a parameter that receives the context's
  \<open>ReadDir\<close> function, the import path and the source directory, and returns the
  (possibly partial) package together with the kind of error.
\<close>

record world =
  fsRoot :: fsnode
  getwd :: "string option"
  buildImport :: "(string \<Rightarrow> string list) \<Rightarrow> string \<Rightarrow> string \<Rightarrow> package \<times> importErr"

definition os_Stat :: "world \<Rightarrow> string \<Rightarrow> fsnode option" where
  "os_Stat w p =
     (if IsAbs p then fs_lookup (fsRoot w) (path_elems p)
      else (case getwd w of
              None \<Rightarrow> None
            | Some d \<Rightarrow> fs_lookup (fsRoot w) (path_elems (path_Join [d, p]))))"

definition ioutil_ReadDir :: "world \<Rightarrow> string \<Rightarrow> string list" where
  "ioutil_ReadDir w dir =
     (case os_Stat w dir of
        Some (FsDir entries) \<Rightarrow> sort (map fst entries)
      | _ \<Rightarrow> [])"

text \<open>
  \<open>filepath.Walk\<close> from a root: the program walks only a path that it has stat'ed
  as a directory just before, so a root that cannot be stat'ed gives no visit here.
\<close>

definition filepath_Walk :: "world \<Rightarrow> string \<Rightarrow> (string \<times> bool) list" where
  "filepath_Walk w root =
     (case os_Stat w root of None \<Rightarrow> [] | Some node \<Rightarrow> walk root node)"

section \<open>Resolving the packages of a directory\<close>

text \<open>
  Go's \<open>map[string]struct{}\<close> is a set of strings.  \<open>combineMaps\<close> copies both
  arguments into a fresh map.
\<close>

definition combineMaps :: "string set \<Rightarrow> string set \<Rightarrow> string set" where
  "combineMaps m1 m2 = m1 \<union> m2"

text \<open>
  \<open>doImport\<close>: with no file to ignore the shared context is used; otherwise a context
  whose \<open>ReadDir\<close> leaves out the entries named in \<open>ignoreFiles\<close>.
\<close>

definition doImport :: "world \<Rightarrow> string \<Rightarrow> string \<Rightarrow> string set \<Rightarrow> package \<times> importErr" where
  "doImport w path srcDir ignoreFiles =
     (if ignoreFiles = {} then buildImport w (ioutil_ReadDir w) path srcDir
      else buildImport w
             (\<lambda>dir. filter (\<lambda>curr. curr \<notin> ignoreFiles) (ioutil_ReadDir w dir))
             path srcDir)"

text \<open>
  The \<open>for\<close> loop of \<open>getPkgsInDir\<close>.  It has no bound in the source, so it is a
  partial function: \<open>None\<close> stands for a loop that never leaves.
\<close>

partial_function (option) getPkgsInDir_loop ::
  "world \<Rightarrow> string \<Rightarrow> string \<Rightarrow> string set \<Rightarrow> package list \<Rightarrow> string set \<Rightarrow> package list option"
where
  "getPkgsInDir_loop w importPkgPath srcDir examinedImports pkgs ctxIgnoreFiles =
     (let pkg = fst (doImport w importPkgPath srcDir ctxIgnoreFiles);
          pkgErr = snd (doImport w importPkgPath srcDir ctxIgnoreFiles)
      in
      if ImportPath pkg = '''' then Some pkgs
      else if ImportPath pkg \<in> examinedImports then Some pkgs
      else if pkgErr \<noteq> MultiplePackageError then Some (pkgs @ [pkg])
      else
        (let invalidFilesMap = set (InvalidGoFiles pkg);
             validGoFiles =
               set (filter (\<lambda>currFile. currFile \<notin> invalidFilesMap)
                      ((GoFiles pkg @ TestGoFiles pkg) @ XTestGoFiles pkg))
         in
         if validGoFiles = {} then Some pkgs
         else
           (let pkg2 = fst (doImport w importPkgPath srcDir
                              (combineMaps ctxIgnoreFiles invalidFilesMap));
                pkgs' = (if ImportPath pkg2 \<noteq> '''' then pkgs @ [pkg2] else pkgs)
            in getPkgsInDir_loop w importPkgPath srcDir examinedImports pkgs'
                 (combineMaps ctxIgnoreFiles validGoFiles))))"

declare getPkgsInDir_loop.simps [code]

definition Contains :: "string \<Rightarrow> string \<Rightarrow> bool" where
  "Contains s substr = (occurrences substr s \<noteq> [])"

definition getPkgsInDir :: "world \<Rightarrow> string \<Rightarrow> string \<Rightarrow> string set \<Rightarrow> package list option" where
  "getPkgsInDir w importPkgPath srcDir examinedImports =
     (if \<not> Contains importPkgPath ''.'' then Some []
      else getPkgsInDir_loop w importPkgPath srcDir examinedImports [] {})"

text \<open>
  What the termination of the loop rests on: \<open>Import\<close> takes the file names of the
  package it returns from the listing that the context's \<open>ReadDir\<close> gives for one
  directory \<open>dir\<close>, so a name that \<open>ReadDir\<close> leaves out is not reported.
\<close>

definition readsListingOf :: "world \<Rightarrow> string \<Rightarrow> string \<Rightarrow> string \<Rightarrow> bool" where
  "readsListingOf w importPkgPath srcDir dir =
     (\<forall>readDir.
        set (GoFiles (fst (buildImport w readDir importPkgPath srcDir)) @
             TestGoFiles (fst (buildImport w readDir importPkgPath srcDir)) @
             XTestGoFiles (fst (buildImport w readDir importPkgPath srcDir)))
          \<subseteq> set (readDir dir))"

section \<open>The import closure\<close>

text \<open>
  A package is internal when \<open>filepath.Rel\<close> from the project root to its directory
  succeeds and the result does not start with \<open>../\<close>.
\<close>

definition isInternal :: "string \<Rightarrow> string \<Rightarrow> bool" where
  "isInternal projectRoot dir =
     (case filepath_Rel projectRoot dir of
        Inl err \<Rightarrow> False
      | Inr rel \<Rightarrow> \<not> HasPrefix rel ''../'')"

text \<open>
  The specification's condition for the same treatment: the directory lies within the
  project root, that is, the elements of the root are the leading elements of the
  directory.
\<close>

definition liesWithin :: "string \<Rightarrow> string \<Rightarrow> bool" where
  "liesWithin projectRoot dir =
     (IsAbs projectRoot = IsAbs dir \<and>
      take (length (path_elems projectRoot)) (path_elems dir) = path_elems projectRoot)"

text \<open>
  \<open>getAllImports\<close> threads the set \<open>examinedImports\<close>, which the Go code mutates in
  place, through every call and returns it with the imported packages.  The two nested
  loops of its body take the recursive call as their argument \<open>rec\<close>.
\<close>

type_synonym closure = "string set \<times> string set"

fun importsLoop ::
  "(string \<Rightarrow> string \<Rightarrow> string set \<Rightarrow> bool \<Rightarrow> closure option) \<Rightarrow> string \<Rightarrow> string list \<Rightarrow>
   closure \<Rightarrow> closure option"
where
  "importsLoop rec srcDir [] st = Some st"
| "importsLoop rec srcDir (currImport # rest) st =
     (if currImport \<in> snd st then importsLoop rec srcDir rest st
      else (case rec currImport srcDir (snd st) False of
              None \<Rightarrow> None
            | Some r \<Rightarrow> importsLoop rec srcDir rest (fst st \<union> fst r, snd r)))"

fun pkgsLoop ::
  "(string \<Rightarrow> string \<Rightarrow> string set \<Rightarrow> bool \<Rightarrow> closure option) \<Rightarrow> string \<Rightarrow> string \<Rightarrow> bool \<Rightarrow>
   package list \<Rightarrow> closure \<Rightarrow> closure option"
where
  "pkgsLoop rec origSrcDir projectRoot includeTests [] st = Some st"
| "pkgsLoop rec origSrcDir projectRoot includeTests (pkg # rest) st =
     (let importedPkgs = insert (ImportPath pkg) (fst st);
          examinedImports = insert (ImportPath pkg) (snd st);
          internal = isInternal projectRoot (Dir pkg);
          srcDir = (if internal then Dir pkg else origSrcDir);
          currPkgImports =
            (if internal \<and> includeTests
             then (Imports pkg @ TestImports pkg) @ XTestImports pkg
             else Imports pkg)
      in case importsLoop rec srcDir currPkgImports (importedPkgs, examinedImports) of
           None \<Rightarrow> None
         | Some st' \<Rightarrow> pkgsLoop rec origSrcDir projectRoot includeTests rest st')"

text \<open>
  The recursion of \<open>getAllImports\<close> is not bounded by anything in the source; the first
  argument bounds its depth, and \<open>None\<close> means that the bound was reached or that a
  directory loop did not return.
\<close>

fun getAllImports ::
  "nat \<Rightarrow> world \<Rightarrow> string \<Rightarrow> string \<Rightarrow> string \<Rightarrow> string set \<Rightarrow> bool \<Rightarrow> closure option"
where
  "getAllImports 0 w importPkgPath srcDir projectRoot examinedImports includeTests = None"
| "getAllImports (Suc n) w importPkgPath srcDir projectRoot examinedImports includeTests =
     (case getPkgsInDir w importPkgPath srcDir examinedImports of
        None \<Rightarrow> None
      | Some pkgs \<Rightarrow>
          pkgsLoop (\<lambda>currImport srcDir'. getAllImports n w currImport srcDir' projectRoot)
            srcDir projectRoot includeTests pkgs ({}, examinedImports))"


definition allImportsInPkg :: "nat \<Rightarrow> world \<Rightarrow> string \<Rightarrow> string \<Rightarrow> string set option" where
  "allImportsInPkg n w pkgDir projectDir =
     map_option fst (getAllImports n w ''.'' pkgDir projectDir {} True)"

text \<open>
  Two packages are the same but for the imports of their test files, and two worlds
  agree but for those imports when every \<open>Import\<close> returns such packages with the same
  kind of error.  \<open>withoutTests\<close> removes the test imports from every package that
  \<open>Import\<close> returns.
\<close>

definition sameButTests :: "package \<Rightarrow> package \<Rightarrow> bool" where
  "sameButTests p q =
     (p\<lparr>TestImports := [], XTestImports := []\<rparr> = q\<lparr>TestImports := [], XTestImports := []\<rparr>)"




section \<open>The vendor inventory\<close>

text \<open>
  The function that \<open>allVendoredPackages\<close> hands to \<open>filepath.Walk\<close>, applied to one
  visit: a directory in which \<open>getPkgsInDir\<close> finds a package with a name adds the
  import path of the first package found there.  It never returns an error, since
  \<open>getPkgsInDir\<close> returns none.
\<close>

definition walkFn :: "world \<Rightarrow> string \<times> bool \<Rightarrow> string set \<Rightarrow> string set option" where
  "walkFn w visit pkgImportPaths =
     (if \<not> snd visit then Some pkgImportPaths
      else (case getPkgsInDir w ''.'' (fst visit) {} of
              None \<Rightarrow> None
            | Some buildPkgs \<Rightarrow>
                if \<not> list_ex (\<lambda>pkg. Name pkg \<noteq> '''') buildPkgs then Some pkgImportPaths
                else Some (insert (ImportPath (buildPkgs ! 0)) pkgImportPaths)))"

fun walkLoop :: "world \<Rightarrow> (string \<times> bool) list \<Rightarrow> string set \<Rightarrow> string set option" where
  "walkLoop w [] pkgImportPaths = Some pkgImportPaths"
| "walkLoop w (visit # rest) pkgImportPaths =
     (case walkFn w visit pkgImportPaths of
        None \<Rightarrow> None
      | Some pkgImportPaths' \<Rightarrow> walkLoop w rest pkgImportPaths')"

text \<open>
  The first lines of \<open>allVendoredPackages\<close> make the path absolute; the working
  directory is asked for only when the path is relative.
\<close>

definition vendorDirAbsPath :: "world \<Rightarrow> string \<Rightarrow> string" where
  "vendorDirAbsPath w vendorDir =
     (if \<not> IsAbs vendorDir then path_Join [the (getwd w), vendorDir] else vendorDir)"

definition allVendoredPackages :: "world \<Rightarrow> string \<Rightarrow> (error + string set) option" where
  "allVendoredPackages w vendorDir =
     (if \<not> IsAbs vendorDir \<and> getwd w = None then Some (Inl GetwdFailed)
      else if path_Base (vendorDirAbsPath w vendorDir) \<noteq> ''vendor''
      then Some (Inl (NotNamedVendor (vendorDirAbsPath w vendorDir)))
      else (case os_Stat w (vendorDirAbsPath w vendorDir) of
              None \<Rightarrow> Some (Inl (StatFailed (vendorDirAbsPath w vendorDir)))
            | Some fi \<Rightarrow>
                if \<not> IsDir fi then Some (Inl (NotADirectory (vendorDirAbsPath w vendorDir)))
                else map_option Inr
                       (walkLoop w (filepath_Walk w (vendorDirAbsPath w vendorDir)) {})))"

section \<open>The unused-package calculator\<close>

fun toAbsPaths :: "string list \<Rightarrow> string \<Rightarrow> string list" where
  "toAbsPaths [] wd = []"
| "toAbsPaths (pkgPath # rest) wd =
     (if \<not> IsAbs pkgPath then path_Join [wd, pkgPath] else pkgPath) # toAbsPaths rest wd"

type_synonym vendorDirs = "string \<rightharpoonup> string set"

text \<open>The first loop of \<open>unusedVendoredPackages\<close>: one inventory per vendor directory.\<close>

fun inventoryLoop ::
  "world \<Rightarrow> regexp list \<Rightarrow> string list \<Rightarrow> vendorDirs \<Rightarrow> (error + vendorDirs) option"
where
  "inventoryLoop w regexps [] vendorDirs = Some (Inr vendorDirs)"
| "inventoryLoop w regexps (pkgPath # rest) vendorDirs =
     (let vendorDirPath = path_Join [pkgPath, ''vendor''] in
      case os_Stat w vendorDirPath of
        None \<Rightarrow> inventoryLoop w regexps rest vendorDirs
      | Some fi \<Rightarrow>
          if \<not> IsDir fi then inventoryLoop w regexps rest vendorDirs
          else (case allVendoredPackages w vendorDirPath of
                  None \<Rightarrow> None
                | Some (Inl err) \<Rightarrow> Some (Inl err)
                | Some (Inr pkgsInVendorDir) \<Rightarrow>
                    inventoryLoop w regexps rest
                      (vendorDirs(vendorDirPath \<mapsto>
                         (\<lambda>pkg. transformImportPath pkg regexps) ` pkgsInVendorDir))))"

text \<open>
  The second loop: every normalised import of every package is deleted from the set of
  every vendor directory.
\<close>

definition deleteImports :: "regexp list \<Rightarrow> string set \<Rightarrow> vendorDirs \<Rightarrow> vendorDirs" where
  "deleteImports regexps importsInPkg vendorDirs =
     (\<lambda>vendorDirPath.
        map_option
          (\<lambda>vendorDirPkgs.
             vendorDirPkgs - (\<lambda>currImportPath. transformImportPath currImportPath regexps) ` importsInPkg)
          (vendorDirs vendorDirPath))"

fun deleteLoop ::
  "nat \<Rightarrow> world \<Rightarrow> string \<Rightarrow> regexp list \<Rightarrow> string list \<Rightarrow> vendorDirs \<Rightarrow> (error + vendorDirs) option"
where
  "deleteLoop n w projectDir regexps [] vendorDirs = Some (Inr vendorDirs)"
| "deleteLoop n w projectDir regexps (pkgPath # rest) vendorDirs =
     (case allImportsInPkg n w pkgPath projectDir of
        None \<Rightarrow> None
      | Some importsInPkg \<Rightarrow>
          deleteLoop n w projectDir regexps rest
            (deleteImports regexps importsInPkg vendorDirs))"

definition unusedVendoredPackages ::
  "nat \<Rightarrow> world \<Rightarrow> string \<Rightarrow> string list \<Rightarrow> string list \<Rightarrow> regexp list \<Rightarrow>
   (error + vendorDirs) option"
where
  "unusedVendoredPackages n w projectDir pkgs ignorePkgs regexps =
     (case getwd w of
        None \<Rightarrow> Some (Inl GetwdFailed)
      | Some wd \<Rightarrow>
          (let projectDir' = (if \<not> IsAbs projectDir then path_Join [wd, projectDir]
                              else projectDir);
               absPkgPaths = toAbsPaths pkgs wd
           in case inventoryLoop w regexps absPkgPaths Map.empty of
                None \<Rightarrow> None
              | Some (Inl err) \<Rightarrow> Some (Inl err)
              | Some (Inr vendorDirs) \<Rightarrow>
                  deleteLoop n w projectDir' regexps
                    (absPkgPaths @ toAbsPaths ignorePkgs wd) vendorDirs))"

section \<open>Reporting\<close>

record Param =
  PkgRegexps :: "regexp list"
  IncludeVendorInImportPath :: bool
  IgnorePkgs :: "string list"

text \<open>
  Go leaves the order in which \<open>range\<close> visits a map unspecified.  The order is a
  parameter: \<open>rangeSet\<close> lists the keys of a set and \<open>rangeMap\<close> the keys of the result
  map, each in the order of one particular run.
\<close>

record iteration =
  rangeSet :: "string set \<Rightarrow> string list"
  rangeMap :: "vendorDirs \<Rightarrow> string list"

text \<open>
  An order of iteration is admissible when it lists the keys of every finite set and of
  every map with finitely many keys, each key once.
\<close>

definition validIteration :: "iteration \<Rightarrow> bool" where
  "validIteration it =
     ((\<forall>s. finite s \<longrightarrow> set (rangeSet it s) = s \<and> distinct (rangeSet it s)) \<and>
      (\<forall>m. finite (dom m) \<longrightarrow> set (rangeMap it m) = dom m \<and> distinct (rangeMap it m)))"

definition sortedVals :: "iteration \<Rightarrow> string set \<Rightarrow> string list" where
  "sortedVals it in' = sort (rangeSet it in')"

text \<open>The loop of \<open>Run\<close> that cuts the vendor prefix off, at index \<open>i\<close> of \<open>out\<close>.\<close>

definition stripStep :: "nat \<Rightarrow> string list \<Rightarrow> string list" where
  "stripStep i out =
     (let importPath = out ! i;
          vendorIdx = LastIndex importPath ''/vendor/''
      in if vendorIdx = - 1 then out
         else out[i := drop (nat (vendorIdx + int (length ''/vendor/''))) importPath])"

definition stripLoop :: "string list \<Rightarrow> string list" where
  "stripLoop out = fold stripStep [0..<length out] out"

definition collectOut :: "iteration \<Rightarrow> vendorDirs \<Rightarrow> string list" where
  "collectOut it unusedPkgs =
     concat (map (\<lambda>k. sortedVals it (the (unusedPkgs k))) (rangeMap it unusedPkgs))"

text \<open>
  What the report does to one entry when the vendor prefix is not wanted, as the
  specification words it: the part strictly after the last \<open>/vendor/\<close>, and the
  entry itself when it has no such segment.
\<close>

definition afterLastVendor_spec :: "string \<Rightarrow> string" where
  "afterLastVendor_spec entry =
     (let occ = occurrences ''/vendor/'' entry
      in if occ = [] then entry else drop (last occ + length ''/vendor/'') entry)"

text \<open>\<open>Run\<close> returns the lines it writes, in order.\<close>

definition Run ::
  "nat \<Rightarrow> world \<Rightarrow> iteration \<Rightarrow> string \<Rightarrow> string list \<Rightarrow> Param \<Rightarrow> (error + string list) option"
where
  "Run n w it projectDir pkgs param =
     (case unusedVendoredPackages n w projectDir pkgs (IgnorePkgs param) (PkgRegexps param) of
        None \<Rightarrow> None
      | Some (Inl err) \<Rightarrow> Some (Inl err)
      | Some (Inr unusedPkgs) \<Rightarrow>
          (let out = collectOut it unusedPkgs;
               out' = (if \<not> IncludeVendorInImportPath param then stripLoop out else out)
           in Some (Inr (sort out'))))"

section \<open>A sample project\<close>

text \<open>
  A small project under \<open>/gopath/src/proj\<close>, used to run the definitions: its root
  package imports one vendored library, its test imports another, and the vendor
  directory also holds a library that only a test of the first library imports, one
  that nothing imports, a package inside a dot directory, and a directory with two
  packages.
\<close>

definition sample_vendor :: fsnode where
  "sample_vendor =
     FsDir [
       (''.hidden'', FsDir [(''pkg'', FsDir [(''h.go'', FsFile)])]),
       (''github.com'', FsDir [(''org'', FsDir [
          (''lib'', FsDir [(''lib.go'', FsFile), (''lib_test.go'', FsFile)]),
          (''testdep'', FsDir [(''t.go'', FsFile)]),
          (''deeptest'', FsDir [(''d.go'', FsFile)]),
          (''unused'', FsDir [(''u.go'', FsFile)])])]),
       (''multi'', FsDir [(''a.go'', FsFile), (''b.go'', FsFile)])]"

definition sample_fs :: fsnode where
  "sample_fs =
     FsDir [(''gopath'', FsDir [(''src'', FsDir [(''proj'', FsDir [
       (''main.go'', FsFile), (''main_test.go'', FsFile),
       (''notes.txt'', FsFile),
       (''vendor'', sample_vendor)])])])]"

definition HasSuffix :: "string \<Rightarrow> string \<Rightarrow> bool" where
  "HasSuffix s suffix = HasPrefix (rev s) (rev suffix)"

definition sample_imports :: "string \<Rightarrow> string list" where
  "sample_imports file =
     (if file = ''main.go'' then [''github.com/org/lib'']
      else if file = ''main_test.go'' then [''github.com/org/testdep'']
      else if file = ''lib_test.go'' then [''github.com/org/deeptest'']
      else [])"

text \<open>
  A stand-in for \<open>Import\<close> on the sample project: it lists the directory through the
  \<open>ReadDir\<close> it is given, takes the Go files found there, and reports
  \<open>a.go\<close> and \<open>b.go\<close> as files of two different packages.
\<close>

definition sample_Import ::
  "(string \<Rightarrow> string list) \<Rightarrow> string \<Rightarrow> string \<Rightarrow> package \<times> importErr"
where
  "sample_Import readDir path srcDir =
     (let dir = (if path = ''.'' then srcDir else ''/gopath/src/proj/vendor/'' @ path);
          files = filter (\<lambda>f. HasSuffix f ''.go'') (readDir dir);
          tests = filter (\<lambda>f. HasSuffix f ''_test.go'') files;
          prods = filter (\<lambda>f. \<not> HasSuffix f ''_test.go'') files;
          two = (''a.go'' \<in> set files \<and> ''b.go'' \<in> set files)
      in (\<lparr>ImportPath = drop (length ''/gopath/src/'') dir,
           Dir = dir,
           Name = (if files = [] then '''' else ''p''),
           GoFiles = prods,
           TestGoFiles = tests,
           XTestGoFiles = [],
           InvalidGoFiles = (if two then [''b.go''] else []),
           Imports = concat (map sample_imports prods),
           TestImports = concat (map sample_imports tests),
           XTestImports = []\<rparr>,
          if two then MultiplePackageError
          else if files = [] then OtherError else NoError))"

definition sample_world :: world where
  "sample_world =
     \<lparr>fsRoot = sample_fs, getwd = Some ''/gopath/src/proj'', buildImport = sample_Import\<rparr>"

definition sample_iteration :: iteration where
  "sample_iteration =
     \<lparr>rangeSet = sorted_list_of_set,
      rangeMap = (\<lambda>m. filter (\<lambda>k. m k \<noteq> None) [''/gopath/src/proj/vendor''])\<rparr>"

text \<open>Two admissible orders of iteration: ascending and descending keys.\<close>

definition ascending_iteration :: iteration where
  "ascending_iteration =
     \<lparr>rangeSet = sorted_list_of_set, rangeMap = (\<lambda>m. sorted_list_of_set (dom m))\<rparr>"

definition descending_iteration :: iteration where
  "descending_iteration =
     \<lparr>rangeSet = (\<lambda>s. rev (sorted_list_of_set s)),
      rangeMap = (\<lambda>m. rev (sorted_list_of_set (dom m)))\<rparr>"

definition sample_param :: Param where
  "sample_param = \<lparr>PkgRegexps = [], IncludeVendorInImportPath = False, IgnorePkgs = []\<rparr>"








section \<open>Properties of the standard library model\<close>

lemma LastIndex_from_none:
  "LastIndex_from n s sep = - 1 \<Longrightarrow> i \<le> n \<Longrightarrow> take (length sep) (drop i s) \<noteq> sep"
proof (induction n arbitrary: i)
  case 0
  then show ?case by (auto split: if_splits)
next
  case (Suc n)
  then show ?case by (cases "i = Suc n") (auto split: if_splits)
qed

lemma LastIndex_from_some:
  "LastIndex_from n s sep \<noteq> - 1 \<Longrightarrow>
   \<exists>k \<le> n. LastIndex_from n s sep = int k \<and> take (length sep) (drop k s) = sep \<and>
          (\<forall>j. k < j \<and> j \<le> n \<longrightarrow> take (length sep) (drop j s) \<noteq> sep)"
proof (induction n)
  case 0
  then show ?case by (auto split: if_splits)
next
  case (Suc n)
  show ?case
  proof (cases "take (length sep) (drop (Suc n) s) = sep")
    case True
    then show ?thesis by (intro exI[of _ "Suc n"]) auto
  next
    case False
    with Suc.prems have "LastIndex_from n s sep \<noteq> - 1" by simp
    from Suc.IH[OF this] obtain k where k: "k \<le> n" "LastIndex_from n s sep = int k"
      "take (length sep) (drop k s) = sep"
      "\<forall>j. k < j \<and> j \<le> n \<longrightarrow> take (length sep) (drop j s) \<noteq> sep" by blast
    show ?thesis
    proof (intro exI[of _ k] conjI allI impI)
      show "k \<le> Suc n" using k by simp
      show "LastIndex_from (Suc n) s sep = int k" using False k by simp
      show "take (length sep) (drop k s) = sep" using k by simp
      fix j assume "k < j \<and> j \<le> Suc n"
      then show "take (length sep) (drop j s) \<noteq> sep"
        using k(4) False by (cases "j = Suc n") auto
    qed
  qed
qed

lemma occurs_fits:
  "take (length sep) (drop i s) = sep \<Longrightarrow> i + length sep \<le> length s \<or> sep = []"
proof -
  assume h: "take (length sep) (drop i s) = sep"
  have "length (take (length sep) (drop i s)) = min (length sep) (length s - i)" by simp
  with h have "length sep \<le> length s - i" by (metis min.cobounded2)
  then show ?thesis by (cases sep) auto
qed

section \<open>The normaliser agrees with its specification\<close>

lemma occurrences_empty_iff:
  "occurrences sep s = [] \<longleftrightarrow> (\<forall>i \<le> length s. take (length sep) (drop i s) \<noteq> sep)"
  by (auto simp: occurrences_def filter_empty_conv less_Suc_eq_le)

lemma last_filter_upt:
  assumes "P k" "k < n" "\<forall>j. k < j \<and> j < n \<longrightarrow> \<not> P j"
  shows "last (filter P [0..<n]) = k"
  using assms
proof (induction n)
  case 0 then show ?case by simp
next
  case (Suc n)
  show ?case
  proof (cases "k = n")
    case True
    then show ?thesis using Suc.prems by simp
  next
    case False
    then have kn: "k < n" using Suc.prems by simp
    have np: "\<not> P n" using Suc.prems kn by simp
    have "last (filter P [0..<n]) = k" using Suc.IH[OF Suc.prems(1) kn] Suc.prems(3) by simp
    then show ?thesis using np by simp
  qed
qed

lemma LastIndex_absent:
  assumes "sep \<noteq> []" "LastIndex s sep = - 1"
  shows "occurrences sep s = []"
proof -
  have "take (length sep) (drop i s) \<noteq> sep" for i
  proof (cases "length s < length sep")
    case True
    then show ?thesis using occurs_fits[of sep i s] assms(1) by auto
  next
    case False
    with assms(2) have n: "LastIndex_from (length s - length sep) s sep = - 1"
      by (simp add: LastIndex_def)
    show ?thesis
    proof (cases "i \<le> length s - length sep")
      case True
      then show ?thesis using LastIndex_from_none[OF n] by simp
    next
      case False
      then show ?thesis using occurs_fits[of sep i s] assms(1) by auto
    qed
  qed
  then show ?thesis by (simp add: occurrences_empty_iff)
qed

lemma LastIndex_present:
  assumes "sep \<noteq> []" "LastIndex s sep \<noteq> - 1"
  shows "occurrences sep s \<noteq> [] \<and> LastIndex s sep = int (last (occurrences sep s)) \<and>
         last (occurrences sep s) + length sep \<le> length s"
proof -
  from assms(2) have le: "length sep \<le> length s"
    and n: "LastIndex_from (length s - length sep) s sep \<noteq> - 1"
    by (auto simp: LastIndex_def split: if_splits)
  from LastIndex_from_some[OF n] obtain k where k: "k \<le> length s - length sep"
    "LastIndex_from (length s - length sep) s sep = int k"
    "take (length sep) (drop k s) = sep"
    "\<forall>j. k < j \<and> j \<le> length s - length sep \<longrightarrow> take (length sep) (drop j s) \<noteq> sep"
    by blast
  have later: "\<forall>j. k < j \<and> j < Suc (length s) \<longrightarrow> take (length sep) (drop j s) \<noteq> sep"
  proof (intro allI impI)
    fix j assume j: "k < j \<and> j < Suc (length s)"
    show "take (length sep) (drop j s) \<noteq> sep"
    proof (cases "j \<le> length s - length sep")
      case True then show ?thesis using k(4) j by simp
    next
      case False then show ?thesis using occurs_fits[of sep j s] assms(1) by auto
    qed
  qed
  have kl: "k < Suc (length s)" using k(1) by simp
  have l: "last (occurrences sep s) = k"
    unfolding occurrences_def
    by (rule last_filter_upt[where P="\<lambda>i. take (length sep) (drop i s) = sep", OF k(3) kl later])
  have "k \<in> set [0..<Suc (length s)]" using kl by auto
  then have ne: "occurrences sep s \<noteq> []"
    using k(3) unfolding occurrences_def filter_empty_conv by blast
  show ?thesis using l ne k(1,2) le by (simp add: LastIndex_def)
qed

lemma transformLoop_find:
  "transformLoop regexps p =
     (case find (\<lambda>reg. reg p \<noteq> []) regexps of None \<Rightarrow> p | Some reg \<Rightarrow> hd (reg p))"
  by (induction regexps) (auto simp: Let_def hd_conv_nth)

lemma transformImportPath_unfold:
  "transformImportPath path patterns =
     (if LastIndex path ''/vendor/'' \<noteq> - 1
      then take (nat (LastIndex path ''/vendor/'' + int (length ''/vendor/''))) path @
           transformLoop patterns
             (drop (nat (LastIndex path ''/vendor/'' + int (length ''/vendor/''))) path)
      else transformLoop patterns path)"
  by (simp only: transformImportPath_def Let_def append_Nil)

lemma normalize_spec_unfold:
  "normalize_spec path patterns =
     (if occurrences ''/vendor/'' path = [] then transformLoop patterns path
      else take (last (occurrences ''/vendor/'' path) + length ''/vendor/'') path @
           transformLoop patterns
             (drop (last (occurrences ''/vendor/'' path) + length ''/vendor/'') path))"
proof (cases "occurrences ''/vendor/'' path = []")
  case True
  show ?thesis
    by (simp add: normalize_spec_def Let_def transformLoop_find True split: option.split)
next
  case False
  show ?thesis
    by (simp add: normalize_spec_def Let_def transformLoop_find False split: option.split)
qed

text \<open>
  Claim C1.  \<open>transformImportPath\<close> computes the normaliser of the specification: the
  path is cut after the last occurrence of \<open>/vendor/\<close> (nowhere when the segment is
  absent), the patterns are tried in order on the remainder, the first one that matches
  replaces the remainder by its match, and the prefix is put back in front.  The function
  is total: whenever the segment is found, both slice bounds lie within the path.
\<close>

theorem transformImportPath_normalize:
  "transformImportPath path patterns = normalize_spec path patterns \<and>
   (LastIndex path ''/vendor/'' \<noteq> - 1 \<longrightarrow>
      0 \<le> LastIndex path ''/vendor/'' \<and>
      nat (LastIndex path ''/vendor/'' + int (length ''/vendor/'')) \<le> length path)"
proof (cases "LastIndex path ''/vendor/'' = - 1")
  case True
  then have "occurrences ''/vendor/'' path = []" by (intro LastIndex_absent) simp_all
  then show ?thesis using True
    by (simp only: transformImportPath_unfold normalize_spec_unfold) simp
next
  case False
  have ne: "''/vendor/'' \<noteq> []" by simp
  from LastIndex_present[OF ne False]
  have a: "occurrences ''/vendor/'' path \<noteq> []"
    and b: "LastIndex path ''/vendor/'' = int (last (occurrences ''/vendor/'' path))"
    and c: "last (occurrences ''/vendor/'' path) + length ''/vendor/'' \<le> length path"
    by blast+
  have d: "nat (LastIndex path ''/vendor/'' + int (length ''/vendor/'')) =
           last (occurrences ''/vendor/'' path) + length ''/vendor/''"
    by (simp only: b nat_int_add)
  have "transformImportPath path patterns = normalize_spec path patterns"
    using False a by (simp only: transformImportPath_unfold normalize_spec_unfold d if_True if_False)  simp
  moreover have "0 \<le> LastIndex path ''/vendor/''" by (simp only: b of_nat_0_le_iff)
  moreover have "nat (LastIndex path ''/vendor/'' + int (length ''/vendor/'')) \<le> length path"
    by (simp only: d c)
  ultimately show ?thesis by blast
qed

theorem transformImportPath_normalize_witness:
  "LastIndex ''github.com/org/project/vendor/gopkg.in/yaml.v2/inner'' ''/vendor/'' = 22 \<and>
   transformImportPath ''github.com/org/project/vendor/gopkg.in/yaml.v2/inner'' [re_gopkg]
     = ''github.com/org/project/vendor/gopkg.in/yaml.v2'' \<and>
   normalize_spec ''github.com/org/project/vendor/gopkg.in/yaml.v2/inner'' [re_gopkg]
     = ''github.com/org/project/vendor/gopkg.in/yaml.v2''"
proof -
  have e: "LastIndex ''github.com/org/project/vendor/gopkg.in/yaml.v2/inner'' ''/vendor/'' = 22"
    by code_simp
  have f: "transformImportPath ''github.com/org/project/vendor/gopkg.in/yaml.v2/inner'' [re_gopkg]
     = ''github.com/org/project/vendor/gopkg.in/yaml.v2''"
    by code_simp
  show ?thesis
    using transformImportPath_normalize[of "''github.com/org/project/vendor/gopkg.in/yaml.v2/inner''" "[re_gopkg]"] e f
    by simp
qed

section \<open>Standard-library-like import paths\<close>

lemma Contains_dot_iff: "Contains s ''.'' \<longleftrightarrow> CHR ''.'' \<in> set s"
proof
  assume "Contains s ''.''"
  then obtain i where i: "take (length ''.'') (drop i s) = ''.''"
    by (auto simp: Contains_def occurrences_def filter_empty_conv simp del: upt_Suc)
  then have "hd (drop i s) = CHR ''.''" "drop i s \<noteq> []"
    by (cases "drop i s"; simp)+
  then have "CHR ''.'' \<in> set (drop i s)" by (metis hd_in_set)
  then show "CHR ''.'' \<in> set s" by (rule in_set_dropD)
next
  assume "CHR ''.'' \<in> set s"
  then obtain i where i: "i < length s" "s ! i = CHR ''.''" by (auto simp: in_set_conv_nth)
  then have "take (length ''.'') (drop i s) = ''.''"
    by (simp add: take_Suc_conv_app_nth hd_drop_conv_nth take_Suc)
  moreover have "i \<in> set [0..<Suc (length s)]" using i by auto
  ultimately show "Contains s ''.''"
    unfolding Contains_def occurrences_def filter_empty_conv by blast
qed

text \<open>
  Claim C8.  An import path without a dot resolves to no package, and the closure of
  such an import is empty and leaves the set of examined imports as it was.
\<close>

theorem no_dot_resolves_to_nothing:
  assumes "CHR ''.'' \<notin> set importPkgPath"
  shows "getPkgsInDir w importPkgPath srcDir examinedImports = Some [] \<and>
         getAllImports (Suc n) w importPkgPath srcDir projectRoot examinedImports includeTests
           = Some ({}, examinedImports)"
  using assms by (simp add: getPkgsInDir_def Contains_dot_iff)

theorem no_dot_resolves_to_nothing_witness:
  "CHR ''.'' \<notin> set ''net/http'' \<and>
   getPkgsInDir sample_world ''net/http'' ''/gopath/src/proj'' {} = Some [] \<and>
   getAllImports (Suc 0) sample_world ''net/http'' ''/gopath/src/proj'' ''/gopath/src/proj'' {} True
     = Some ({}, {})"
proof -
  have h: "CHR ''.'' \<notin> set ''net/http''" by simp
  from no_dot_resolves_to_nothing[OF h] show ?thesis using h by blast
qed

section \<open>The report\<close>

lemma stripStep_length: "length (stripStep i out) = length out"
  by (simp add: stripStep_def Let_def)

lemma stripStep_entry:
  "LastIndex e ''/vendor/'' = - 1 \<Longrightarrow> afterLastVendor_spec e = e"
  "LastIndex e ''/vendor/'' \<noteq> - 1 \<Longrightarrow>
     drop (nat (LastIndex e ''/vendor/'' + int (length ''/vendor/''))) e = afterLastVendor_spec e"
proof -
  assume a: "LastIndex e ''/vendor/'' = - 1"
  have "occurrences ''/vendor/'' e = []" by (rule LastIndex_absent[OF _ a]) simp
  then show "afterLastVendor_spec e = e" by (simp add: afterLastVendor_spec_def)
next
  assume a: "LastIndex e ''/vendor/'' \<noteq> - 1"
  have ne: "''/vendor/'' \<noteq> []" by simp
  from LastIndex_present[OF ne a]
  have b: "occurrences ''/vendor/'' e \<noteq> []"
    and c: "LastIndex e ''/vendor/'' = int (last (occurrences ''/vendor/'' e))" by blast+
  have d: "nat (LastIndex e ''/vendor/'' + int (length ''/vendor/'')) =
           last (occurrences ''/vendor/'' e) + length ''/vendor/''"
    by (simp only: c nat_int_add)
  show "drop (nat (LastIndex e ''/vendor/'' + int (length ''/vendor/''))) e = afterLastVendor_spec e"
    unfolding d using b by (simp add: afterLastVendor_spec_def Let_def)
qed

lemma stripStep_eq:
  "i < length out \<Longrightarrow> stripStep i out = out[i := afterLastVendor_spec (out ! i)]"
  using stripStep_entry[of "out ! i"]
  by (cases "LastIndex (out ! i) ''/vendor/'' = - 1") (simp_all add: stripStep_def Let_def)

lemma fold_stripStep:
  "n \<le> length out \<Longrightarrow>
   fold stripStep [0..<n] out = map afterLastVendor_spec (take n out) @ drop n out"
proof (induction n)
  case 0
  then show ?case by simp
next
  case (Suc n)
  then have n: "n < length out" by simp
  have "fold stripStep [0..<Suc n] out = stripStep n (fold stripStep [0..<n] out)" by simp
  also have "\<dots> = stripStep n (map afterLastVendor_spec (take n out) @ drop n out)"
    using Suc by simp
  also have "\<dots> = (map afterLastVendor_spec (take n out) @ drop n out)
                     [n := afterLastVendor_spec ((map afterLastVendor_spec (take n out) @ drop n out) ! n)]"
    using n by (intro stripStep_eq) simp
  also have "\<dots> = map afterLastVendor_spec (take (Suc n) out) @ drop (Suc n) out"
    using n by (simp add: nth_append list_update_append take_Suc_conv_app_nth
        Cons_nth_drop_Suc[symmetric] min_def)
  finally show ?case .
qed

lemma stripLoop_map: "stripLoop out = map afterLastVendor_spec out"
  by (simp add: stripLoop_def fold_stripStep)

text \<open>
  Claim C10.  When \<open>IncludeVendorInImportPath\<close> is false \<open>Run\<close> replaces every entry
  that has a \<open>/vendor/\<close> segment by what follows the last such segment and keeps every
  other entry; when it is true no entry is changed.  The entries are then sorted.
\<close>

theorem Run_strips_vendor_prefix:
  "Run n w it projectDir pkgs param =
     (case unusedVendoredPackages n w projectDir pkgs (IgnorePkgs param) (PkgRegexps param) of
        None \<Rightarrow> None
      | Some (Inl err) \<Rightarrow> Some (Inl err)
      | Some (Inr unusedPkgs) \<Rightarrow>
          Some (Inr (sort (map (\<lambda>entry. if IncludeVendorInImportPath param then entry
                                        else afterLastVendor_spec entry)
                            (collectOut it unusedPkgs)))))"
  by (simp add: Run_def Let_def stripLoop_map split: option.split sum.split)

theorem Run_strips_vendor_prefix_witness:
  "Run 5 sample_world sample_iteration ''/gopath/src/proj'' [''/gopath/src/proj''] sample_param
     = Some (Inr [''.hidden/pkg'', ''github.com/org/deeptest'', ''github.com/org/unused'',
                  ''multi'']) \<and>
   afterLastVendor_spec ''proj/vendor/github.com/org/unused'' = ''github.com/org/unused'' \<and>
   afterLastVendor_spec ''proj/main'' = ''proj/main''"
proof -
  have e: "Run 5 sample_world sample_iteration ''/gopath/src/proj'' [''/gopath/src/proj'']
             sample_param
           = Some (Inr [''.hidden/pkg'', ''github.com/org/deeptest'', ''github.com/org/unused'',
                        ''multi''])"
    by code_simp
  have f: "afterLastVendor_spec ''proj/vendor/github.com/org/unused'' = ''github.com/org/unused''"
    "afterLastVendor_spec ''proj/main'' = ''proj/main''"
    by code_simp+
  show ?thesis
    using Run_strips_vendor_prefix[of 5 sample_world sample_iteration "''/gopath/src/proj''"
        "[''/gopath/src/proj'']" sample_param] e f
    by simp
qed

section \<open>The checks of the vendor inventory\<close>

lemma walkLoop_returns:
  "\<forall>visit \<in> set visits. snd visit \<longrightarrow> getPkgsInDir w ''.'' (fst visit) {} \<noteq> None \<Longrightarrow>
   \<exists>r. walkLoop w visits acc = Some r"
proof (induction visits arbitrary: acc)
  case Nil
  then show ?case by simp
next
  case (Cons v vs)
  then have "\<exists>acc'. walkFn w v acc = Some acc'"
    by (cases "snd v") (auto simp: walkFn_def split: option.splits if_splits)
  then obtain acc' where "walkFn w v acc = Some acc'" by blast
  then show ?case using Cons by simp
qed

text \<open>
  Claim C9.  With the path made absolute, \<open>allVendoredPackages\<close> fails when the base
  name is not \<open>vendor\<close>, when the path cannot be stat'ed and when it is not a
  directory.  Otherwise none of its results is an error, and it returns an inventory as
  soon as the directory loop returns at every directory of the walk.
\<close>

theorem allVendoredPackages_checks:
  assumes "IsAbs vendorDir \<or> getwd w \<noteq> None"
  shows "(path_Base (vendorDirAbsPath w vendorDir) \<noteq> ''vendor'' \<longrightarrow>
            allVendoredPackages w vendorDir
              = Some (Inl (NotNamedVendor (vendorDirAbsPath w vendorDir)))) \<and>
         (path_Base (vendorDirAbsPath w vendorDir) = ''vendor'' \<and>
          os_Stat w (vendorDirAbsPath w vendorDir) = None \<longrightarrow>
            allVendoredPackages w vendorDir
              = Some (Inl (StatFailed (vendorDirAbsPath w vendorDir)))) \<and>
         (path_Base (vendorDirAbsPath w vendorDir) = ''vendor'' \<and>
          os_Stat w (vendorDirAbsPath w vendorDir) = Some FsFile \<longrightarrow>
            allVendoredPackages w vendorDir
              = Some (Inl (NotADirectory (vendorDirAbsPath w vendorDir)))) \<and>
         (path_Base (vendorDirAbsPath w vendorDir) = ''vendor'' \<and>
          os_Stat w (vendorDirAbsPath w vendorDir) = Some (FsDir entries) \<longrightarrow>
            (\<forall>err. allVendoredPackages w vendorDir \<noteq> Some (Inl err)) \<and>
            ((\<forall>visit \<in> set (filepath_Walk w (vendorDirAbsPath w vendorDir)).
                snd visit \<longrightarrow> getPkgsInDir w ''.'' (fst visit) {} \<noteq> None) \<longrightarrow>
             (\<exists>inventory. allVendoredPackages w vendorDir = Some (Inr inventory))))"
proof (intro conjI impI)
  show "allVendoredPackages w vendorDir = Some (Inl (NotNamedVendor (vendorDirAbsPath w vendorDir)))"
    if "path_Base (vendorDirAbsPath w vendorDir) \<noteq> ''vendor''"
    using that assms by (auto simp: allVendoredPackages_def)
  show "allVendoredPackages w vendorDir = Some (Inl (StatFailed (vendorDirAbsPath w vendorDir)))"
    if "path_Base (vendorDirAbsPath w vendorDir) = ''vendor'' \<and>
        os_Stat w (vendorDirAbsPath w vendorDir) = None"
    using that assms by (auto simp: allVendoredPackages_def)
  show "allVendoredPackages w vendorDir = Some (Inl (NotADirectory (vendorDirAbsPath w vendorDir)))"
    if "path_Base (vendorDirAbsPath w vendorDir) = ''vendor'' \<and>
        os_Stat w (vendorDirAbsPath w vendorDir) = Some FsFile"
    using that assms by (auto simp: allVendoredPackages_def)
next
  assume ok: "path_Base (vendorDirAbsPath w vendorDir) = ''vendor'' \<and>
        os_Stat w (vendorDirAbsPath w vendorDir) = Some (FsDir entries)"
  have eq: "allVendoredPackages w vendorDir =
          map_option Inr (walkLoop w (filepath_Walk w (vendorDirAbsPath w vendorDir)) {})"
    using ok assms by (auto simp: allVendoredPackages_def)
  show "\<forall>err. allVendoredPackages w vendorDir \<noteq> Some (Inl err)"
    unfolding eq by auto
  show "\<exists>inventory. allVendoredPackages w vendorDir = Some (Inr inventory)"
    if "\<forall>visit \<in> set (filepath_Walk w (vendorDirAbsPath w vendorDir)).
                snd visit \<longrightarrow> getPkgsInDir w ''.'' (fst visit) {} \<noteq> None"
    using walkLoop_returns[OF that, of "{}"] unfolding eq by auto
qed

lemma sample_vendor_stat:
  "os_Stat sample_world ''/gopath/src/proj/vendor'' = Some sample_vendor"
  by code_simp

lemma sample_vendor_inventory:
  "allVendoredPackages sample_world ''/gopath/src/proj/vendor'' =
     Some (Inr {''proj/vendor/.hidden/pkg'', ''proj/vendor/github.com/org/deeptest'',
                ''proj/vendor/github.com/org/lib'', ''proj/vendor/github.com/org/testdep'',
                ''proj/vendor/github.com/org/unused'', ''proj/vendor/multi''})"
  by code_simp

theorem allVendoredPackages_checks_witness:
  "IsAbs ''/gopath/src/proj/vendor'' \<and>
   allVendoredPackages sample_world ''/gopath/src/proj''
     = Some (Inl (NotNamedVendor ''/gopath/src/proj'')) \<and>
   allVendoredPackages sample_world ''/gopath/src/missing/vendor''
     = Some (Inl (StatFailed ''/gopath/src/missing/vendor'')) \<and>
   allVendoredPackages sample_world ''/gopath/src/proj/vendor'' =
     Some (Inr {''proj/vendor/.hidden/pkg'', ''proj/vendor/github.com/org/deeptest'',
                ''proj/vendor/github.com/org/lib'', ''proj/vendor/github.com/org/testdep'',
                ''proj/vendor/github.com/org/unused'', ''proj/vendor/multi''})"
proof -
  have a: "IsAbs ''/gopath/src/proj/vendor''" by code_simp
  have b: "IsAbs ''/gopath/src/proj'' \<or> getwd sample_world \<noteq> None" by code_simp
  have c: "IsAbs ''/gopath/src/missing/vendor'' \<or> getwd sample_world \<noteq> None" by code_simp
  have d: "vendorDirAbsPath sample_world ''/gopath/src/proj'' = ''/gopath/src/proj''"
    "vendorDirAbsPath sample_world ''/gopath/src/missing/vendor'' = ''/gopath/src/missing/vendor''"
    by code_simp+
  have e: "path_Base ''/gopath/src/proj'' \<noteq> ''vendor''"
    "path_Base ''/gopath/src/missing/vendor'' = ''vendor''"
    "os_Stat sample_world ''/gopath/src/missing/vendor'' = None"
    by code_simp+
  show ?thesis
    using a allVendoredPackages_checks[OF b, of "[]"] allVendoredPackages_checks[OF c, of "[]"]
      sample_vendor_inventory
    unfolding d using e by simp
qed

section \<open>The walk of the vendor tree\<close>

lemma walk_visits_directory:
  "fs_lookup node names = Some (FsDir entries) \<Longrightarrow>
   (foldl (\<lambda>p name. path_Join [p, name]) path names, True) \<in> set (walk path node)"
proof (induction names arbitrary: node path)
  case Nil
  then show ?case by simp
next
  case (Cons e rest)
  then obtain es where node: "node = FsDir es" by (cases node) auto
  with Cons.prems obtain child where child: "map_of es e = Some child"
    "fs_lookup child rest = Some (FsDir entries)"
    by (auto split: option.splits)
  have "(e, child) \<in> set (sort_key fst es)" using child(1) by (auto dest: map_of_SomeD)
  moreover have "(foldl (\<lambda>p name. path_Join [p, name]) (path_Join [path, e]) rest, True)
                   \<in> set (walk (path_Join [path, e]) child)"
    by (rule Cons.IH[OF child(2)])
  ultimately show ?case unfolding node by (simp del: set_sort) force
qed

lemma walkFn_mono: "walkFn w visit acc = Some r \<Longrightarrow> acc \<subseteq> r"
  by (auto simp: walkFn_def split: if_splits option.splits)

lemma walkLoop_mono: "walkLoop w visits acc = Some r \<Longrightarrow> acc \<subseteq> r"
proof (induction visits arbitrary: acc)
  case Nil
  then show ?case by simp
next
  case (Cons v vs)
  then show ?case by (auto split: option.splits dest!: walkFn_mono)
qed

lemma walkLoop_records:
  assumes "walkLoop w visits acc = Some r" "(dir, True) \<in> set visits"
    "getPkgsInDir w ''.'' dir {} = Some pkgs" "list_ex (\<lambda>pkg. Name pkg \<noteq> '''') pkgs"
  shows "ImportPath (pkgs ! 0) \<in> r"
  using assms
proof (induction visits arbitrary: acc)
  case Nil
  then show ?case by simp
next
  case (Cons v vs)
  from Cons.prems(1) obtain acc' where acc': "walkFn w v acc = Some acc'"
    "walkLoop w vs acc' = Some r" by (auto split: option.splits)
  show ?case
  proof (cases "v = (dir, True)")
    case True
    then have "ImportPath (pkgs ! 0) \<in> acc'"
      using acc'(1) Cons.prems(3,4) by (auto simp: walkFn_def)
    then show ?thesis using walkLoop_mono[OF acc'(2)] by blast
  next
    case False
    then have "(dir, True) \<in> set vs" using Cons.prems(2) by simp
    from Cons.IH[OF acc'(2) this Cons.prems(3,4)] show ?thesis .
  qed
qed

text \<open>
  Claim C4, as the code has it.  The walk of the vendor tree visits every directory,
  whatever its name, and a directory in which a named package is found adds the import
  path of the first package found there to the inventory; a name that starts with a dot
  makes no difference.
\<close>

theorem allVendoredPackages_walks_every_directory:
  assumes "IsAbs vendorDir"
    and "allVendoredPackages w vendorDir = Some (Inr inventory)"
    and "os_Stat w vendorDir = Some root"
    and "fs_lookup root names = Some (FsDir entries)"
    and "getPkgsInDir w ''.'' (foldl (\<lambda>p name. path_Join [p, name]) vendorDir names) {}
           = Some pkgs"
    and "list_ex (\<lambda>pkg. Name pkg \<noteq> '''') pkgs"
  shows "(foldl (\<lambda>p name. path_Join [p, name]) vendorDir names, True)
           \<in> set (filepath_Walk w vendorDir) \<and>
         ImportPath (pkgs ! 0) \<in> inventory"
proof -
  have abs: "vendorDirAbsPath w vendorDir = vendorDir"
    using assms(1) by (simp add: vendorDirAbsPath_def)
  have visit: "(foldl (\<lambda>p name. path_Join [p, name]) vendorDir names, True)
           \<in> set (filepath_Walk w vendorDir)"
    using walk_visits_directory[OF assms(4)] assms(3) by (simp add: filepath_Walk_def)
  have "walkLoop w (filepath_Walk w vendorDir) {} = Some inventory"
    using assms(2) unfolding allVendoredPackages_def abs
    by (auto split: if_splits option.splits)
  from walkLoop_records[OF this visit assms(5,6)] visit show ?thesis by blast
qed

lemma sample_hidden_pkgs:
  "getPkgsInDir sample_world ''.'' ''/gopath/src/proj/vendor/.hidden/pkg'' {} =
     Some [\<lparr>ImportPath = ''proj/vendor/.hidden/pkg'',
            Dir = ''/gopath/src/proj/vendor/.hidden/pkg'', Name = ''p'',
            GoFiles = [''h.go''], TestGoFiles = [], XTestGoFiles = [],
            InvalidGoFiles = [], Imports = [], TestImports = [], XTestImports = []\<rparr>]"
  by code_simp

theorem allVendoredPackages_walks_every_directory_witness:
  "IsAbs ''/gopath/src/proj/vendor'' \<and>
   fs_lookup sample_vendor [''.hidden'', ''pkg''] = Some (FsDir [(''h.go'', FsFile)]) \<and>
   (''/gopath/src/proj/vendor/.hidden/pkg'', True)
      \<in> set (filepath_Walk sample_world ''/gopath/src/proj/vendor'') \<and>
   ''proj/vendor/.hidden/pkg''
      \<in> {''proj/vendor/.hidden/pkg'', ''proj/vendor/github.com/org/deeptest'',
         ''proj/vendor/github.com/org/lib'', ''proj/vendor/github.com/org/testdep'',
         ''proj/vendor/github.com/org/unused'', ''proj/vendor/multi''}"
proof -
  have a: "IsAbs ''/gopath/src/proj/vendor''" by code_simp
  have b: "fs_lookup sample_vendor [''.hidden'', ''pkg''] = Some (FsDir [(''h.go'', FsFile)])"
    by code_simp
  have c: "foldl (\<lambda>p name. path_Join [p, name]) ''/gopath/src/proj/vendor'' [''.hidden'', ''pkg'']
             = ''/gopath/src/proj/vendor/.hidden/pkg''"
    by code_simp
  have d: "getPkgsInDir sample_world ''.''
             (foldl (\<lambda>p name. path_Join [p, name]) ''/gopath/src/proj/vendor'' [''.hidden'', ''pkg'']) {}
           = Some [\<lparr>ImportPath = ''proj/vendor/.hidden/pkg'',
            Dir = ''/gopath/src/proj/vendor/.hidden/pkg'', Name = ''p'',
            GoFiles = [''h.go''], TestGoFiles = [], XTestGoFiles = [],
            InvalidGoFiles = [], Imports = [], TestImports = [], XTestImports = []\<rparr>]"
    unfolding c by (rule sample_hidden_pkgs)
  have e: "list_ex (\<lambda>pkg. Name pkg \<noteq> '''')
             [\<lparr>ImportPath = ''proj/vendor/.hidden/pkg'',
            Dir = ''/gopath/src/proj/vendor/.hidden/pkg'', Name = ''p'',
            GoFiles = [''h.go''], TestGoFiles = [], XTestGoFiles = [],
            InvalidGoFiles = [], Imports = [], TestImports = [], XTestImports = []\<rparr>]"
    by simp
  from allVendoredPackages_walks_every_directory[OF a sample_vendor_inventory
      sample_vendor_stat b d e]
  show ?thesis using a b unfolding c by simp
qed

text \<open>
  The claim as worded fails on the sample project: the directory \<open>.hidden\<close> of the
  vendor tree is walked, and the package inside it is part of the inventory.
\<close>

theorem hidden_directory_counterexample:
  "HasPrefix ''.hidden'' ''.'' \<and>
   (''/gopath/src/proj/vendor/.hidden/pkg'', True)
      \<in> set (filepath_Walk sample_world ''/gopath/src/proj/vendor'') \<and>
   allVendoredPackages sample_world ''/gopath/src/proj/vendor'' =
     Some (Inr {''proj/vendor/.hidden/pkg'', ''proj/vendor/github.com/org/deeptest'',
                ''proj/vendor/github.com/org/lib'', ''proj/vendor/github.com/org/testdep'',
                ''proj/vendor/github.com/org/unused'', ''proj/vendor/multi''})"
  by code_simp

section \<open>Internal packages\<close>

text \<open>
  Claim C5 on the parent of the project root.  \<open>filepath.Rel\<close> gives \<open>..\<close> there,
  which does not start with \<open>../\<close>: the package counts as internal although its
  directory does not lie within the project root, and the imports of its tests enter the
  closure.  One level further up the result is \<open>../..\<close> and the package is external.
\<close>

theorem parent_of_projectRoot_is_internal:
  "filepath_Rel ''/gopath/src/proj/vendor'' ''/gopath/src/proj'' = Inr ''..'' \<and>
   isInternal ''/gopath/src/proj/vendor'' ''/gopath/src/proj'' \<and>
   \<not> liesWithin ''/gopath/src/proj/vendor'' ''/gopath/src/proj'' \<and>
   \<not> isInternal ''/gopath/src/proj/vendor/github.com'' ''/gopath/src/proj'' \<and>
   map_option fst
     (getAllImports 5 sample_world ''.'' ''/gopath/src/proj'' ''/gopath/src/proj/vendor'' {} True)
     = Some {''proj'', ''proj/vendor/github.com/org/lib'', ''proj/vendor/github.com/org/testdep''} \<and>
   map_option fst
     (getAllImports 5 sample_world ''.'' ''/gopath/src/proj'' ''/gopath/src/proj/vendor/github.com''
        {} True)
     = Some {''proj'', ''proj/vendor/github.com/org/lib''}"
  by code_simp

section \<open>Termination of the directory loop\<close>

lemma doImport_files:
  assumes "readsListingOf w importPkgPath srcDir dir"
  shows "set (GoFiles (fst (doImport w importPkgPath srcDir ignoreFiles)) @
              TestGoFiles (fst (doImport w importPkgPath srcDir ignoreFiles)) @
              XTestGoFiles (fst (doImport w importPkgPath srcDir ignoreFiles)))
           \<subseteq> set (ioutil_ReadDir w dir) - ignoreFiles"
proof (cases "ignoreFiles = {}")
  case True
  then show ?thesis
    using assms[unfolded readsListingOf_def, rule_format, of "ioutil_ReadDir w"]
    by (simp add: doImport_def)
next
  case False
  have "set (filter (\<lambda>curr. curr \<notin> ignoreFiles) (ioutil_ReadDir w dir))
          = set (ioutil_ReadDir w dir) - ignoreFiles" by auto
  then show ?thesis
    using False assms[unfolded readsListingOf_def, rule_format,
        of "\<lambda>dir. filter (\<lambda>curr. curr \<notin> ignoreFiles) (ioutil_ReadDir w dir)"]
    by (simp add: doImport_def)
qed

lemma validGoFiles_fresh:
  assumes "readsListingOf w importPkgPath srcDir dir"
  shows "set (filter (\<lambda>currFile. currFile \<notin> invalid)
                ((GoFiles (fst (doImport w importPkgPath srcDir ignoreFiles)) @
                  TestGoFiles (fst (doImport w importPkgPath srcDir ignoreFiles))) @
                 XTestGoFiles (fst (doImport w importPkgPath srcDir ignoreFiles))))
           \<subseteq> set (ioutil_ReadDir w dir) - ignoreFiles"
  using doImport_files[OF assms, of ignoreFiles] by auto

lemma getPkgsInDir_loop_returns:
  assumes "readsListingOf w importPkgPath srcDir dir"
  shows "\<exists>r. getPkgsInDir_loop w importPkgPath srcDir examinedImports pkgs ctxIgnoreFiles = Some r"
proof (induction "card (set (ioutil_ReadDir w dir) - ctxIgnoreFiles)"
    arbitrary: ctxIgnoreFiles pkgs rule: less_induct)
  case less
  define pkg where "pkg = fst (doImport w importPkgPath srcDir ctxIgnoreFiles)"
  define valid where "valid = set (filter (\<lambda>currFile. currFile \<notin> set (InvalidGoFiles pkg))
                      ((GoFiles pkg @ TestGoFiles pkg) @ XTestGoFiles pkg))"
  have fresh: "valid \<subseteq> set (ioutil_ReadDir w dir) - ctxIgnoreFiles"
    unfolding valid_def pkg_def by (rule validGoFiles_fresh[OF assms])
  show ?case
  proof (cases "ImportPath pkg = '''' \<or> ImportPath pkg \<in> examinedImports \<or>
                snd (doImport w importPkgPath srcDir ctxIgnoreFiles) \<noteq> MultiplePackageError \<or>
                valid = {}")
    case True
    then show ?thesis
      by (subst getPkgsInDir_loop.simps) (auto simp: Let_def pkg_def valid_def)
  next
    case False
    then obtain f where f: "f \<in> valid" by blast
    have "set (ioutil_ReadDir w dir) - combineMaps ctxIgnoreFiles valid
            \<subset> set (ioutil_ReadDir w dir) - ctxIgnoreFiles"
      using f fresh by (auto simp: combineMaps_def)
    then have dec: "card (set (ioutil_ReadDir w dir) - combineMaps ctxIgnoreFiles valid)
            < card (set (ioutil_ReadDir w dir) - ctxIgnoreFiles)"
      by (intro psubset_card_mono) auto
    from less[OF dec] have ih:
      "\<exists>r. getPkgsInDir_loop w importPkgPath srcDir examinedImports pkgs'
              (combineMaps ctxIgnoreFiles valid) = Some r" for pkgs' by blast
    show ?thesis
      using False ih
      by (subst getPkgsInDir_loop.simps) (auto simp: Let_def pkg_def valid_def)
  qed
qed

text \<open>
  Claim C6.  When \<open>Import\<close> reports only files that the directory listing it is given
  contains, \<open>getPkgsInDir\<close> returns for every import path, source directory and set of
  examined imports.  An iteration that goes on has found at least one valid file, none of
  its valid files was ignored before, and all of them are entries of the directory: the
  set of ignored files grows strictly within the finite listing.
\<close>

theorem getPkgsInDir_terminates:
  assumes "readsListingOf w importPkgPath srcDir dir"
  shows "(\<exists>pkgs. getPkgsInDir w importPkgPath srcDir examinedImports = Some pkgs) \<and>
         (\<forall>ctxIgnoreFiles validGoFiles.
            validGoFiles =
              set (filter (\<lambda>currFile. currFile \<notin>
                       set (InvalidGoFiles (fst (doImport w importPkgPath srcDir ctxIgnoreFiles))))
                    ((GoFiles (fst (doImport w importPkgPath srcDir ctxIgnoreFiles)) @
                      TestGoFiles (fst (doImport w importPkgPath srcDir ctxIgnoreFiles))) @
                     XTestGoFiles (fst (doImport w importPkgPath srcDir ctxIgnoreFiles)))) \<and>
            validGoFiles \<noteq> {} \<longrightarrow>
              ctxIgnoreFiles \<subset> combineMaps ctxIgnoreFiles validGoFiles \<and>
              combineMaps ctxIgnoreFiles validGoFiles - ctxIgnoreFiles
                \<subseteq> set (ioutil_ReadDir w dir))"
proof (intro conjI allI impI)
  show "\<exists>pkgs. getPkgsInDir w importPkgPath srcDir examinedImports = Some pkgs"
    using getPkgsInDir_loop_returns[OF assms] by (simp add: getPkgsInDir_def)
next
  fix ctxIgnoreFiles validGoFiles
  assume a: "validGoFiles =
              set (filter (\<lambda>currFile. currFile \<notin>
                       set (InvalidGoFiles (fst (doImport w importPkgPath srcDir ctxIgnoreFiles))))
                    ((GoFiles (fst (doImport w importPkgPath srcDir ctxIgnoreFiles)) @
                      TestGoFiles (fst (doImport w importPkgPath srcDir ctxIgnoreFiles))) @
                     XTestGoFiles (fst (doImport w importPkgPath srcDir ctxIgnoreFiles)))) \<and>
            validGoFiles \<noteq> {}"
  then have "validGoFiles \<subseteq> set (ioutil_ReadDir w dir) - ctxIgnoreFiles"
    using validGoFiles_fresh[OF assms, of _ ctxIgnoreFiles] by blast
  with a show "ctxIgnoreFiles \<subset> combineMaps ctxIgnoreFiles validGoFiles"
    by (auto simp: combineMaps_def)
  from \<open>validGoFiles \<subseteq> set (ioutil_ReadDir w dir) - ctxIgnoreFiles\<close>
  show "combineMaps ctxIgnoreFiles validGoFiles - ctxIgnoreFiles \<subseteq> set (ioutil_ReadDir w dir)"
    by (auto simp: combineMaps_def)
qed

lemma sample_readsListingOf:
  "readsListingOf sample_world importPkgPath srcDir
     (if importPkgPath = ''.'' then srcDir else ''/gopath/src/proj/vendor/'' @ importPkgPath)"
  by (auto simp: readsListingOf_def sample_world_def sample_Import_def Let_def)

theorem getPkgsInDir_terminates_witness:
  "readsListingOf sample_world ''.'' ''/gopath/src/proj/vendor/multi''
     ''/gopath/src/proj/vendor/multi'' \<and>
   (\<exists>pkgs. getPkgsInDir sample_world ''.'' ''/gopath/src/proj/vendor/multi'' {} = Some pkgs) \<and>
   map_option (map GoFiles) (getPkgsInDir sample_world ''.'' ''/gopath/src/proj/vendor/multi'' {})
     = Some [[''a.go''], [''b.go'']]"
proof -
  have h: "readsListingOf sample_world ''.'' ''/gopath/src/proj/vendor/multi''
     ''/gopath/src/proj/vendor/multi''"
    using sample_readsListingOf[of "''.''" "''/gopath/src/proj/vendor/multi''"] by simp
  have e: "map_option (map GoFiles)
             (getPkgsInDir sample_world ''.'' ''/gopath/src/proj/vendor/multi'' {})
           = Some [[''a.go''], [''b.go'']]"
    by code_simp
  from getPkgsInDir_terminates[OF h, of "{}"] h e show ?thesis by blast
qed

section \<open>The calculator only removes entries\<close>

lemma inventoryLoop_invariant:
  assumes "inventoryLoop w regexps paths vendorDirs = Some (Inr vendorDirs')"
    and "\<forall>k s. vendorDirs k = Some s \<longrightarrow>
           (\<exists>inv. allVendoredPackages w k = Some (Inr inv) \<and>
                  s = (\<lambda>pkg. transformImportPath pkg regexps) ` inv)"
  shows "\<forall>k s. vendorDirs' k = Some s \<longrightarrow>
           (\<exists>inv. allVendoredPackages w k = Some (Inr inv) \<and>
                  s = (\<lambda>pkg. transformImportPath pkg regexps) ` inv)"
  using assms
proof (induction paths arbitrary: vendorDirs)
  case Nil
  then show ?case by simp
next
  case (Cons pkgPath rest)
  let ?v = "path_Join [pkgPath, ''vendor'']"
  show ?case
  proof (cases "\<exists>fi. os_Stat w ?v = Some fi \<and> IsDir fi")
    case False
    then have "inventoryLoop w regexps rest vendorDirs = Some (Inr vendorDirs')"
      using Cons.prems(1) by (auto simp: Let_def split: option.splits)
    from Cons.IH[OF this Cons.prems(2)] show ?thesis .
  next
    case True
    then obtain inv where inv: "allVendoredPackages w ?v = Some (Inr inv)"
      and rest: "inventoryLoop w regexps rest
                   (vendorDirs(?v \<mapsto> (\<lambda>pkg. transformImportPath pkg regexps) ` inv))
                 = Some (Inr vendorDirs')"
      using Cons.prems(1) by (auto simp: Let_def split: option.splits sum.splits)
    have "\<forall>k s. (vendorDirs(?v \<mapsto> (\<lambda>pkg. transformImportPath pkg regexps) ` inv)) k = Some s \<longrightarrow>
           (\<exists>inv. allVendoredPackages w k = Some (Inr inv) \<and>
                  s = (\<lambda>pkg. transformImportPath pkg regexps) ` inv)"
      using Cons.prems(2) inv by auto
    from Cons.IH[OF rest this] show ?thesis .
  qed
qed

lemma deleteImports_shrinks:
  "deleteImports regexps imps vendorDirs k = Some s' \<Longrightarrow>
   \<exists>s. vendorDirs k = Some s \<and> s' \<subseteq> s"
  by (auto simp: deleteImports_def)

lemma deleteLoop_shrinks:
  assumes "deleteLoop n w projectDir regexps paths vendorDirs = Some (Inr vendorDirs')"
    and "vendorDirs' k = Some s'"
  shows "\<exists>s. vendorDirs k = Some s \<and> s' \<subseteq> s"
  using assms
proof (induction paths arbitrary: vendorDirs)
  case Nil
  then show ?case by simp
next
  case (Cons pkgPath rest)
  from Cons.prems(1) obtain imps where
    rest: "deleteLoop n w projectDir regexps rest (deleteImports regexps imps vendorDirs)
             = Some (Inr vendorDirs')"
    by (auto split: option.splits)
  from Cons.IH[OF rest Cons.prems(2)] obtain s1 where
    s1: "deleteImports regexps imps vendorDirs k = Some s1" "s' \<subseteq> s1" by blast
  from deleteImports_shrinks[OF s1(1)] s1(2) show ?case by blast
qed

text \<open>
  Claim C2.  The set that the calculator returns for a vendor directory is a subset of
  the set that the first loop stored for it, which is the normalised inventory of that
  directory: the second loop takes entries away and adds none.
\<close>

theorem unusedVendoredPackages_subset_of_inventory:
  assumes "unusedVendoredPackages n w projectDir pkgs ignorePkgs regexps = Some (Inr residual)"
    and "residual vendorDirPath = Some unused"
  shows "\<exists>initial inventory.
           inventoryLoop w regexps (toAbsPaths pkgs (the (getwd w))) Map.empty
             = Some (Inr initial) \<and>
           allVendoredPackages w vendorDirPath = Some (Inr inventory) \<and>
           initial vendorDirPath = Some ((\<lambda>pkg. transformImportPath pkg regexps) ` inventory) \<and>
           unused \<subseteq> (\<lambda>pkg. transformImportPath pkg regexps) ` inventory"
proof -
  from assms(1) obtain wd initial where wd: "getwd w = Some wd"
    and init: "inventoryLoop w regexps (toAbsPaths pkgs wd) Map.empty = Some (Inr initial)"
    and del: "deleteLoop n w (if \<not> IsAbs projectDir then path_Join [wd, projectDir] else projectDir)
                regexps (toAbsPaths pkgs wd @ toAbsPaths ignorePkgs wd) initial
              = Some (Inr residual)"
    by (auto simp: unusedVendoredPackages_def Let_def split: option.splits sum.splits)
  from deleteLoop_shrinks[OF del assms(2)] obtain s where
    s: "initial vendorDirPath = Some s" "unused \<subseteq> s" by blast
  have "\<forall>k s. Map.empty k = Some s \<longrightarrow>
           (\<exists>inv. allVendoredPackages w k = Some (Inr inv) \<and>
                  s = (\<lambda>pkg. transformImportPath pkg regexps) ` inv)" by simp
  from inventoryLoop_invariant[OF init this] s(1) obtain inv where
    "allVendoredPackages w vendorDirPath = Some (Inr inv)"
    "s = (\<lambda>pkg. transformImportPath pkg regexps) ` inv" by blast
  then show ?thesis using init s wd by auto
qed

lemma Some_Inr_the: "x \<noteq> None \<Longrightarrow> \<not> isl (the x) \<Longrightarrow> x = Some (Inr (projr (the x)))"
  by (cases x) (auto simp: isl_def)

theorem unusedVendoredPackages_subset_of_inventory_witness:
  "unusedVendoredPackages 5 sample_world ''/gopath/src/proj'' [''/gopath/src/proj''] [] [] \<noteq> None \<and>
   projr (the (unusedVendoredPackages 5 sample_world ''/gopath/src/proj'' [''/gopath/src/proj''] [] []))
     ''/gopath/src/proj/vendor''
     = Some {''proj/vendor/.hidden/pkg'', ''proj/vendor/github.com/org/deeptest'',
             ''proj/vendor/github.com/org/unused'', ''proj/vendor/multi''} \<and>
   {''proj/vendor/.hidden/pkg'', ''proj/vendor/github.com/org/deeptest'',
    ''proj/vendor/github.com/org/unused'', ''proj/vendor/multi''}
     \<subseteq> (\<lambda>pkg. transformImportPath pkg []) `
         {''proj/vendor/.hidden/pkg'', ''proj/vendor/github.com/org/deeptest'',
          ''proj/vendor/github.com/org/lib'', ''proj/vendor/github.com/org/testdep'',
          ''proj/vendor/github.com/org/unused'', ''proj/vendor/multi''}"
proof -
  let ?x = "unusedVendoredPackages 5 sample_world ''/gopath/src/proj'' [''/gopath/src/proj''] [] []"
  have a: "?x \<noteq> None" by code_simp
  have b: "\<not> isl (the ?x)" by code_simp
  have c: "projr (the ?x) ''/gopath/src/proj/vendor''
     = Some {''proj/vendor/.hidden/pkg'', ''proj/vendor/github.com/org/deeptest'',
             ''proj/vendor/github.com/org/unused'', ''proj/vendor/multi''}"
    by code_simp
  from unusedVendoredPackages_subset_of_inventory[OF Some_Inr_the[OF a b] c]
  show ?thesis using a c sample_vendor_inventory by auto
qed

section \<open>The report does not depend on the order of iteration\<close>

lemma walkFn_finite: "walkFn w visit acc = Some r \<Longrightarrow> finite acc \<Longrightarrow> finite r"
  by (auto simp: walkFn_def split: if_splits option.splits)

lemma walkLoop_finite: "walkLoop w visits acc = Some r \<Longrightarrow> finite acc \<Longrightarrow> finite r"
proof (induction visits arbitrary: acc)
  case Nil
  then show ?case by simp
next
  case (Cons v vs)
  then show ?case by (auto split: option.splits dest: walkFn_finite)
qed

lemma allVendoredPackages_finite:
  "allVendoredPackages w vendorDir = Some (Inr inventory) \<Longrightarrow> finite inventory"
  by (auto simp: allVendoredPackages_def split: if_splits option.splits dest: walkLoop_finite)

lemma inventoryLoop_finite:
  assumes "inventoryLoop w regexps paths vendorDirs = Some (Inr vendorDirs')"
    and "finite (dom vendorDirs)" "\<forall>k s. vendorDirs k = Some s \<longrightarrow> finite s"
  shows "finite (dom vendorDirs') \<and> (\<forall>k s. vendorDirs' k = Some s \<longrightarrow> finite s)"
  using assms
proof (induction paths arbitrary: vendorDirs)
  case Nil
  then show ?case by simp
next
  case (Cons pkgPath rest)
  let ?v = "path_Join [pkgPath, ''vendor'']"
  show ?case
  proof (cases "\<exists>fi. os_Stat w ?v = Some fi \<and> IsDir fi")
    case False
    then have "inventoryLoop w regexps rest vendorDirs = Some (Inr vendorDirs')"
      using Cons.prems(1) by (auto simp: Let_def split: option.splits)
    from Cons.IH[OF this Cons.prems(2,3)] show ?thesis .
  next
    case True
    then obtain inv where inv: "allVendoredPackages w ?v = Some (Inr inv)"
      and rest: "inventoryLoop w regexps rest
                   (vendorDirs(?v \<mapsto> (\<lambda>pkg. transformImportPath pkg regexps) ` inv))
                 = Some (Inr vendorDirs')"
      using Cons.prems(1) by (auto simp: Let_def split: option.splits sum.splits)
    have f: "finite inv" by (rule allVendoredPackages_finite[OF inv])
    have a: "finite (dom (vendorDirs(?v \<mapsto> (\<lambda>pkg. transformImportPath pkg regexps) ` inv)))"
      using Cons.prems(2) by simp
    have b: "\<forall>k s. (vendorDirs(?v \<mapsto> (\<lambda>pkg. transformImportPath pkg regexps) ` inv)) k = Some s
               \<longrightarrow> finite s"
      using Cons.prems(3) f by auto
    from Cons.IH[OF rest a b] show ?thesis .
  qed
qed

lemma deleteLoop_dom:
  "deleteLoop n w projectDir regexps paths vendorDirs = Some (Inr vendorDirs') \<Longrightarrow>
   dom vendorDirs' = dom vendorDirs"
proof (induction paths arbitrary: vendorDirs)
  case Nil
  then show ?case by simp
next
  case (Cons pkgPath rest)
  from Cons.prems obtain imps where
    rest: "deleteLoop n w projectDir regexps rest (deleteImports regexps imps vendorDirs)
             = Some (Inr vendorDirs')"
    by (auto split: option.splits)
  have "dom (deleteImports regexps imps vendorDirs) = dom vendorDirs"
    by (auto simp: deleteImports_def dom_def)
  with Cons.IH[OF rest] show ?case by simp
qed

lemma unusedVendoredPackages_finite:
  assumes "unusedVendoredPackages n w projectDir pkgs ignorePkgs regexps = Some (Inr residual)"
  shows "finite (dom residual) \<and> (\<forall>k s. residual k = Some s \<longrightarrow> finite s)"
proof -
  from assms obtain wd initial where
    init: "inventoryLoop w regexps (toAbsPaths pkgs wd) Map.empty = Some (Inr initial)"
    and del: "deleteLoop n w (if \<not> IsAbs projectDir then path_Join [wd, projectDir] else projectDir)
                regexps (toAbsPaths pkgs wd @ toAbsPaths ignorePkgs wd) initial
              = Some (Inr residual)"
    by (auto simp: unusedVendoredPackages_def Let_def split: option.splits sum.splits)
  have i: "finite (dom initial) \<and> (\<forall>k s. initial k = Some s \<longrightarrow> finite s)"
    by (rule inventoryLoop_finite[OF init]) simp_all
  have "finite (dom residual)" using deleteLoop_dom[OF del] i by simp
  moreover have "finite s" if "residual k = Some s" for k s
    using deleteLoop_shrinks[OF del that] i by (auto intro: finite_subset)
  ultimately show ?thesis by blast
qed

lemma sortedVals_order_free:
  assumes "validIteration it1" "validIteration it2" "finite s"
  shows "sortedVals it1 s = sortedVals it2 s"
proof -
  have "set (rangeSet it1 s) = s" "distinct (rangeSet it1 s)"
    "set (rangeSet it2 s) = s" "distinct (rangeSet it2 s)"
    using assms by (auto simp: validIteration_def)
  then show ?thesis
    unfolding sortedVals_def
    by (intro sorted_distinct_set_unique) simp_all
qed

lemma collectOut_mset:
  assumes "validIteration it1" "validIteration it2"
    "finite (dom m)" "\<forall>k s. m k = Some s \<longrightarrow> finite s"
  shows "mset (collectOut it1 m) = mset (collectOut it2 m)"
proof -
  have keys: "set (rangeMap it1 m) = dom m" "distinct (rangeMap it1 m)"
    "set (rangeMap it2 m) = dom m" "distinct (rangeMap it2 m)"
    using assms(1,2,3) by (auto simp: validIteration_def)
  then have ms: "mset (rangeMap it1 m) = mset (rangeMap it2 m)"
    by (simp add: set_eq_iff_mset_eq_distinct[symmetric])
  have same: "sortedVals it1 (the (m k)) = sortedVals it2 (the (m k))" if "k \<in> dom m" for k
    using that assms(4) by (intro sortedVals_order_free[OF assms(1,2)]) auto
  have "mset (collectOut it1 m)
          = sum_mset (image_mset (\<lambda>k. mset (sortedVals it1 (the (m k)))) (mset (rangeMap it1 m)))"
    by (simp add: collectOut_def mset_concat comp_def flip: sum_mset_sum_list)
  also have "\<dots> = sum_mset (image_mset (\<lambda>k. mset (sortedVals it2 (the (m k)))) (mset (rangeMap it1 m)))"
    using same keys(1) by (intro arg_cong[where f = sum_mset] image_mset_cong) simp
  also have "\<dots> = mset (collectOut it2 m)"
    unfolding ms by (simp add: collectOut_def mset_concat comp_def flip: sum_mset_sum_list)
  finally show ?thesis .
qed

lemma sort_mset_cong: "mset xs = mset ys \<Longrightarrow> sort xs = sort (ys :: string list)"
  by (rule properties_for_sort) simp_all

text \<open>
  Claim C7.  The lines that \<open>Run\<close> writes do not depend on the order in which the maps
  are iterated, so two runs on the same file tree and configuration write the same
  lines in the same order; and the lines are sorted.
\<close>

theorem Run_deterministic:
  assumes "validIteration it1" "validIteration it2"
  shows "Run n w it1 projectDir pkgs param = Run n w it2 projectDir pkgs param \<and>
         (\<forall>lines. Run n w it1 projectDir pkgs param = Some (Inr lines) \<longrightarrow> sorted lines)"
proof (cases "unusedVendoredPackages n w projectDir pkgs (IgnorePkgs param) (PkgRegexps param)")
  case None
  then show ?thesis by (simp add: Run_def)
next
  case (Some r)
  show ?thesis
  proof (cases r)
    case (Inl err)
    then show ?thesis using Some by (simp add: Run_def)
  next
    case (Inr m)
    from unusedVendoredPackages_finite[OF Some[unfolded Inr]]
    have ms: "mset (collectOut it1 m) = mset (collectOut it2 m)"
      by (intro collectOut_mset[OF assms]) blast+
    then have "mset (stripLoop (collectOut it1 m)) = mset (stripLoop (collectOut it2 m))"
      by (simp add: stripLoop_map)
    with ms have "sort (stripLoop (collectOut it1 m)) = sort (stripLoop (collectOut it2 m))"
      "sort (collectOut it1 m) = sort (collectOut it2 m)"
      by (auto intro: sort_mset_cong)
    then show ?thesis using Some Inr by (auto simp: Run_def Let_def)
  qed
qed

lemma ascending_valid: "validIteration ascending_iteration"
  by (simp add: validIteration_def ascending_iteration_def)

lemma descending_valid: "validIteration descending_iteration"
  by (simp add: validIteration_def descending_iteration_def)

lemma inventoryLoop_dom:
  "inventoryLoop w regexps paths vendorDirs = Some (Inr vendorDirs') \<Longrightarrow>
   dom vendorDirs' \<subseteq> dom vendorDirs \<union> (\<lambda>pkgPath. path_Join [pkgPath, ''vendor'']) ` set paths"
proof (induction paths arbitrary: vendorDirs)
  case Nil
  then show ?case by simp
next
  case (Cons pkgPath rest)
  let ?v = "path_Join [pkgPath, ''vendor'']"
  show ?case
  proof (cases "\<exists>fi. os_Stat w ?v = Some fi \<and> IsDir fi")
    case False
    then have "inventoryLoop w regexps rest vendorDirs = Some (Inr vendorDirs')"
      using Cons.prems(1) by (auto simp: Let_def split: option.splits)
    from Cons.IH[OF this] show ?thesis by auto
  next
    case True
    then obtain inv where
      rest: "inventoryLoop w regexps rest
                   (vendorDirs(?v \<mapsto> (\<lambda>pkg. transformImportPath pkg regexps) ` inv))
                 = Some (Inr vendorDirs')"
      using Cons.prems(1) by (auto simp: Let_def split: option.splits sum.splits)
    from Cons.IH[OF rest] show ?thesis by auto
  qed
qed

lemma unusedVendoredPackages_unfold:
  assumes "unusedVendoredPackages n w projectDir pkgs ignorePkgs regexps = Some (Inr residual)"
  shows "\<exists>wd initial. getwd w = Some wd \<and>
           inventoryLoop w regexps (toAbsPaths pkgs wd) Map.empty = Some (Inr initial) \<and>
           deleteLoop n w (if \<not> IsAbs projectDir then path_Join [wd, projectDir] else projectDir)
             regexps (toAbsPaths pkgs wd @ toAbsPaths ignorePkgs wd) initial
           = Some (Inr residual)"
  using assms
  by (auto simp: unusedVendoredPackages_def Let_def split: option.splits sum.splits)

lemma unusedVendoredPackages_dom:
  assumes "unusedVendoredPackages n w projectDir pkgs ignorePkgs regexps = Some (Inr residual)"
  shows "dom residual
           \<subseteq> (\<lambda>pkgPath. path_Join [pkgPath, ''vendor'']) ` set (toAbsPaths pkgs (the (getwd w)))"
proof -
  from unusedVendoredPackages_unfold[OF assms] obtain wd initial where
    wd: "getwd w = Some wd"
    and init: "inventoryLoop w regexps (toAbsPaths pkgs wd) Map.empty = Some (Inr initial)"
    and del: "deleteLoop n w (if \<not> IsAbs projectDir then path_Join [wd, projectDir] else projectDir)
             regexps (toAbsPaths pkgs wd @ toAbsPaths ignorePkgs wd) initial
           = Some (Inr residual)" by blast
  show ?thesis using inventoryLoop_dom[OF init] deleteLoop_dom[OF del] wd by simp
qed

lemma sample_residual_dom:
  "dom (projr (the (unusedVendoredPackages 5 sample_world ''/gopath/src/proj''
                      [''/gopath/src/proj''] [] [])))
     = {''/gopath/src/proj/vendor''}"
proof -
  let ?x = "unusedVendoredPackages 5 sample_world ''/gopath/src/proj'' [''/gopath/src/proj''] [] []"
  have a: "?x \<noteq> None" by code_simp
  have b: "\<not> isl (the ?x)" by code_simp
  have c: "projr (the ?x) ''/gopath/src/proj/vendor'' \<noteq> None" by code_simp
  have d: "(\<lambda>pkgPath. path_Join [pkgPath, ''vendor'']) `
             set (toAbsPaths [''/gopath/src/proj''] (the (getwd sample_world)))
           = {''/gopath/src/proj/vendor''}"
    by code_simp
  have "dom (projr (the ?x)) \<subseteq> {''/gopath/src/proj/vendor''}"
    using unusedVendoredPackages_dom[OF Some_Inr_the[OF a b]] unfolding d .
  with c show ?thesis by auto
qed

lemma sample_run_ascending:
  "Run 5 sample_world ascending_iteration ''/gopath/src/proj'' [''/gopath/src/proj''] sample_param
     = Some (Inr [''.hidden/pkg'', ''github.com/org/deeptest'', ''github.com/org/unused'',
                  ''multi''])"
proof -
  let ?x = "unusedVendoredPackages 5 sample_world ''/gopath/src/proj'' [''/gopath/src/proj''] [] []"
  have a: "?x \<noteq> None" by code_simp
  have b: "\<not> isl (the ?x)" by code_simp
  have c: "projr (the ?x) ''/gopath/src/proj/vendor''
     = Some {''proj/vendor/.hidden/pkg'', ''proj/vendor/github.com/org/deeptest'',
             ''proj/vendor/github.com/org/unused'', ''proj/vendor/multi''}"
    by code_simp
  have p: "IgnorePkgs sample_param = []" "PkgRegexps sample_param = []"
    "\<not> IncludeVendorInImportPath sample_param"
    by (simp_all add: sample_param_def)
  have s: "sort (sorted_list_of_set
             {''proj/vendor/.hidden/pkg'', ''proj/vendor/github.com/org/deeptest'',
              ''proj/vendor/github.com/org/unused'', ''proj/vendor/multi''})
           = [''proj/vendor/.hidden/pkg'', ''proj/vendor/github.com/org/deeptest'',
              ''proj/vendor/github.com/org/unused'', ''proj/vendor/multi'']"
    by code_simp
  have e: "sort (stripLoop [''proj/vendor/.hidden/pkg'', ''proj/vendor/github.com/org/deeptest'',
              ''proj/vendor/github.com/org/unused'', ''proj/vendor/multi''])
           = [''.hidden/pkg'', ''github.com/org/deeptest'', ''github.com/org/unused'', ''multi'']"
    by code_simp
  have "collectOut ascending_iteration (projr (the ?x))
          = sort (sorted_list_of_set
             {''proj/vendor/.hidden/pkg'', ''proj/vendor/github.com/org/deeptest'',
              ''proj/vendor/github.com/org/unused'', ''proj/vendor/multi''})"
    by (simp add: collectOut_def ascending_iteration_def sortedVals_def sample_residual_dom c)
  then have "collectOut ascending_iteration (projr (the ?x))
          = [''proj/vendor/.hidden/pkg'', ''proj/vendor/github.com/org/deeptest'',
              ''proj/vendor/github.com/org/unused'', ''proj/vendor/multi'']"
    unfolding s .
  then show ?thesis
    unfolding Run_def p(1,2) by (subst Some_Inr_the[OF a b]) (simp only: Let_def e p(3) not_False_eq_True if_True option.case sum.case)
qed

theorem Run_deterministic_witness:
  "validIteration ascending_iteration \<and> validIteration descending_iteration \<and>
   Run 5 sample_world descending_iteration ''/gopath/src/proj'' [''/gopath/src/proj''] sample_param
     = Some (Inr [''.hidden/pkg'', ''github.com/org/deeptest'', ''github.com/org/unused'',
                  ''multi'']) \<and>
   sorted [''.hidden/pkg'', ''github.com/org/deeptest'', ''github.com/org/unused'', ''multi'']"
  using Run_deterministic[OF ascending_valid descending_valid, of 5 sample_world
      "''/gopath/src/proj''" "[''/gopath/src/proj'']" sample_param]
    ascending_valid descending_valid sample_run_ascending
  by simp

section \<open>Test imports in the closure\<close>




lemma sameButTests_sym: "sameButTests a b \<Longrightarrow> sameButTests b a"
  by (simp add: sameButTests_def)









































end
